theory Spec2Isabelle
  imports Main "HOL-Library.Sublist"
begin

section \<open>The virtual tree\<close>

text \<open>
  The workspace app receives its sources as data:
  \<^verbatim>\<open>
  interface File { content: string }
  interface Directory { entries: FileSystemNode[] }
  interface FileSystemNode { name: string; value: Directory | File }
  interface State { fileSystem: FileSystemNode[] }
  \<close>
  \<open>isDir\<close> tests \<open>Array.isArray(node.value?.entries)\<close>; on the two variants of the
  interface that is the constructor test, so \<open>buildFs\<close> below matches on the constructor.
  Strings are modelled as \<open>string\<close>, one \<open>char\<close> standing for one code unit.
\<close>

datatype FileSystemNode = FileSystemNode string NodeValue
  and NodeValue = Directory "FileSystemNode list" | File string

record State =
  fileSystem :: "FileSystemNode list"

text \<open>
  \<^verbatim>\<open>interface FileSystem { [path: string]: string | FileSystem }\<close>
  A flattened tree is a JavaScript object. It is kept as the list of its own properties
  in the order in which \<open>Object.entries\<close> enumerates them.
\<close>

datatype FileSystem = Content string | Object "(string \<times> FileSystem) list"

record TsContent =
  path :: string
  content :: string

section \<open>Own properties of a JavaScript object\<close>

text \<open>
  \<open>Object.entries\<close> lists the own string keys of an ordinary object in the order of
  OrdinaryOwnPropertyKeys: first the keys that are array indices (the canonical decimal
  form of an integer from 0 to 2^32 - 2) in ascending numeric order, then every other
  string key in the order in which it was first created. The object literal
  \<^verbatim>\<open>{ ...acc, [k]: v }\<close> copies the properties of \<open>acc\<close> in that order and then defines
  \<open>k\<close>: a key that is already there keeps its place and gets the new value, a new key is
  created.
\<close>

definition digitValue :: "char \<Rightarrow> nat option" where
  "digitValue c = map_of (zip ''0123456789'' [0, 1, 2, 3, 4, 5, 6, 7, 8, 9]) c"

fun decimalValue :: "nat \<Rightarrow> string \<Rightarrow> nat option" where
  "decimalValue acc [] = Some acc"
| "decimalValue acc (c # cs) =
     (case digitValue c of None \<Rightarrow> None | Some d \<Rightarrow> decimalValue (10 * acc + d) cs)"

definition arrayIndex :: "string \<Rightarrow> nat option" where
  "arrayIndex s =
     (if s = [] then None
      else if hd s = CHR ''0'' \<and> tl s \<noteq> [] then None
      else (case decimalValue 0 s of
              None \<Rightarrow> None
            | Some n \<Rightarrow> if n \<le> 4294967294 then Some n else None))"

fun insertIndexKey :: "nat \<Rightarrow> string \<Rightarrow> 'a \<Rightarrow> (string \<times> 'a) list \<Rightarrow> (string \<times> 'a) list" where
  "insertIndexKey i k v [] = [(k, v)]"
| "insertIndexKey i k v ((k', v') # rest) =
     (case arrayIndex k' of
        None \<Rightarrow> (k, v) # (k', v') # rest
      | Some j \<Rightarrow> if j < i then (k', v') # insertIndexKey i k v rest
                  else (k, v) # (k', v') # rest)"

fun replaceValue :: "string \<Rightarrow> 'a \<Rightarrow> (string \<times> 'a) list \<Rightarrow> (string \<times> 'a) list" where
  "replaceValue k v [] = []"
| "replaceValue k v ((k', v') # rest) =
     (if k' = k then (k', v) # rest else (k', v') # replaceValue k v rest)"

definition hasOwn :: "(string \<times> 'a) list \<Rightarrow> string \<Rightarrow> bool" where
  "hasOwn obj k = (map_of obj k \<noteq> None)"

definition setProperty :: "(string \<times> 'a) list \<Rightarrow> string \<Rightarrow> 'a \<Rightarrow> (string \<times> 'a) list" where
  "setProperty obj k v =
     (if hasOwn obj k then replaceValue k v obj
      else (case arrayIndex k of
              None \<Rightarrow> obj @ [(k, v)]
            | Some i \<Rightarrow> insertIndexKey i k v obj))"

section \<open>Flattening and walking\<close>

text \<open>
  \<^verbatim>\<open>
  const buildFs = (nodes: FileSystemNode[]): FileSystem => {
    return nodes.reduce((acc, node) => {
      if (isDir(node.value)) {
        return { ...acc, [node.name]: buildFs(node.value.entries) };
      } else {
        return { ...acc, [node.name]: node.value.content };
      }
    }, {});
  };
  \<close>
  \<open>reduceFs acc nodes\<close> is the fold of \<open>reduce\<close> from the accumulator \<open>acc\<close>.
\<close>

fun reduceFs :: "(string \<times> FileSystem) list \<Rightarrow> FileSystemNode list \<Rightarrow> (string \<times> FileSystem) list" where
  "reduceFs acc [] = acc"
| "reduceFs acc (FileSystemNode nm (Directory es) # nodes) =
     reduceFs (setProperty acc nm (Object (reduceFs [] es))) nodes"
| "reduceFs acc (FileSystemNode nm (File c) # nodes) =
     reduceFs (setProperty acc nm (Content c)) nodes"

definition buildFs :: "FileSystemNode list \<Rightarrow> (string \<times> FileSystem) list" where
  "buildFs nodes = reduceFs [] nodes"

text \<open>\<open>String.prototype.endsWith\<close>.\<close>

definition endsWith :: "string \<Rightarrow> string \<Rightarrow> bool" where
  "endsWith s searchString = suffix searchString s"

text \<open>
  \<^verbatim>\<open>
  function* walk(fs: FileSystem | string, root = ""): Generator<TsContent> {
    if (typeof fs === "string") {
      if (!root.endsWith(".ts") && !root.endsWith(".tsx")) return;
      return yield { path: root, content: fs };
    }
    for (const [name, subdir] of Object.entries(fs)) {
      yield* walk(subdir, `${root === "" ? "" : `${root}/`}${name}`);
    }
  }
  \<close>
  The generator has no effect besides its yields, so it is the list of what it yields;
  \<open>walkEntries\<close> is the \<open>for\<close> loop.
\<close>

fun walk :: "FileSystem \<Rightarrow> string \<Rightarrow> TsContent list"
  and walkEntries :: "(string \<times> FileSystem) list \<Rightarrow> string \<Rightarrow> TsContent list" where
  "walk (Content fs) root =
     (if \<not> endsWith root ''.ts'' \<and> \<not> endsWith root ''.tsx'' then []
      else [\<lparr>path = root, content = fs\<rparr>])"
| "walk (Object es) root = walkEntries es root"
| "walkEntries [] root = []"
| "walkEntries ((nm, subdir) # rest) root =
     walk subdir ((if root = '''' then '''' else root @ ''/'') @ nm) @ walkEntries rest root"

section \<open>Manifest and source map\<close>

text \<open>
  The manifest is a JavaScript object whose fields \<open>name\<close> and \<open>baseUrl\<close> are strings and
  whose other fields map block keys to modules. \<open>compile\<close> reads and writes it with
  computed keys, so it is modelled as the object it is at run time: a field holds a string
  or an object of entries, and an entry is a module or (only after a string has been
  spread) a one-character string. The type \<open>'m\<close> is the type of loaded modules.
\<close>

datatype 'm Entry = Module 'm | Character string

datatype 'm Field = Text string | Blocks "string \<rightharpoonup> 'm Entry"

type_synonym 'm AppManifest = "string \<rightharpoonup> 'm Field"

text \<open>A source-map entry is the object \<^verbatim>\<open>{ path, content }\<close>.\<close>

type_synonym SourceMap = "string \<rightharpoonup> TsContent"

text \<open>
  Template-literal conversion \<^verbatim>\<open>`${v}`\<close> of a field (\<open>None\<close> is \<open>undefined\<close>), and the
  own enumerable properties copied by the spread \<^verbatim>\<open>{ ...v }\<close>: none for \<open>undefined\<close>, the
  indexed characters for a string, the entries for an object.
\<close>

definition toString :: "'m Field option \<Rightarrow> string" where
  "toString v =
     (case v of
        None \<Rightarrow> ''undefined''
      | Some (Text s) \<Rightarrow> s
      | Some (Blocks b) \<Rightarrow> ''[object Object]'')"

definition spread :: "'m Field option \<Rightarrow> (string \<rightharpoonup> 'm Entry)" where
  "spread v =
     (case v of
        None \<Rightarrow> Map.empty
      | Some (Text s) \<Rightarrow>
          (\<lambda>k. case arrayIndex k of
                 None \<Rightarrow> None
               | Some i \<Rightarrow> if i < length s then Some (Character [s ! i]) else None)
      | Some (Blocks b) \<Rightarrow> b)"

section \<open>The runtime compiler and the linking step\<close>

text \<open>
  What the module takes from outside the repository is a parameter:
  \<^item> \<open>initializePromise\<close>: how the promise of \<open>initialize(...)\<close> settles (\<open>None\<close>: fulfilled,
    \<open>Some e\<close>: rejected with \<open>e\<close>);
  \<^item> \<open>importFromString\<close>: \<open>transform\<close> followed by the dynamic \<open>import\<close> of the result, which
    yields a module or throws;
  \<^item> \<open>currdir\<close> (\<open>dirname(import.meta.url)\<close>) and \<open>join\<close> of \<open>std/path\<close>;
  \<^item> \<open>manifestGen\<close>, the default export of \<open>manifest.gen.ts\<close>, and \<open>buildSourceMap\<close>.
\<close>

record ('m, 'e) Env =
  initializePromise :: "'e option"
  importFromString :: "string \<Rightarrow> 'e + 'm"
  currdir :: string
  join :: "string list \<Rightarrow> string"
  manifestGen :: "'m AppManifest"
  buildSourceMap :: "'m AppManifest \<Rightarrow> SourceMap"

text \<open>
  \<^verbatim>\<open>
  const compile = async (blockType, { path, content }, manifest, sourceMap) => {
    await initializePromise;
    const tsModule = await importFromString(content);
    const blockPath = join(currdir, blockType, path);
    const blockKey = `${manifest.name}/${blockType}/${path}`;
    return [{ ...manifest, [blockType]: { ...manifest[blockType], [blockKey]: tsModule } },
            { ...sourceMap, [blockKey]: { path: blockPath, content: content } }];
  };
  \<close>
\<close>

definition blockKeyOf :: "'m AppManifest \<Rightarrow> string \<Rightarrow> TsContent \<Rightarrow> string" where
  "blockKeyOf manifest blockType unit =
     toString (manifest ''name'') @ ''/'' @ blockType @ ''/'' @ path unit"

definition compile ::
  "('m, 'e) Env \<Rightarrow> string \<Rightarrow> TsContent \<Rightarrow> 'm AppManifest \<Rightarrow> SourceMap
     \<Rightarrow> 'e + ('m AppManifest \<times> SourceMap)" where
  "compile env blockType unit manifest sourceMap =
     (case initializePromise env of
        Some e \<Rightarrow> Inl e
      | None \<Rightarrow>
          (case importFromString env (content unit) of
             Inl e \<Rightarrow> Inl e
           | Inr tsModule \<Rightarrow>
               let blockPath = join env [currdir env, blockType, path unit];
                   blockKey = blockKeyOf manifest blockType unit
               in Inr (manifest(blockType \<mapsto>
                         Blocks ((spread (manifest blockType))(blockKey \<mapsto> Module tsModule))),
                       sourceMap(blockKey \<mapsto> \<lparr>path = blockPath, content = content unit\<rparr>))))"

section \<open>The build pass\<close>

text \<open>
  \<^verbatim>\<open>
  export default async function App({ fileSystem }: State) {
    const fs = buildFs(fileSystem);
    let appManifest = manifest;
    let appSourceMap: SourceMap = buildSourceMap(appManifest);
    for (const [blockType, blockContentOrFs] of Object.entries(fs)) {
      for (const tsContent of walk(blockContentOrFs)) {
        const [newManifest, newSourceMap] =
          await compile(blockType, tsContent, appManifest, appSourceMap);
        appManifest = newManifest;
        appSourceMap = newSourceMap;
      }
    }
    return { manifest: appManifest, state: fs, sourceMap: appSourceMap };
  }
  \<close>
  \<open>forUnits\<close> is the inner loop and \<open>forEntries\<close> the outer one, each on the pair of the
  two loop variables; a rejected \<open>compile\<close> leaves both loops and rejects \<open>App\<close>.
\<close>

fun forUnits ::
  "('m, 'e) Env \<Rightarrow> string \<Rightarrow> TsContent list \<Rightarrow> 'm AppManifest \<times> SourceMap
     \<Rightarrow> 'e + ('m AppManifest \<times> SourceMap)" where
  "forUnits env blockType [] acc = Inr acc"
| "forUnits env blockType (tsContent # rest) (appManifest, appSourceMap) =
     (case compile env blockType tsContent appManifest appSourceMap of
        Inl e \<Rightarrow> Inl e
      | Inr acc' \<Rightarrow> forUnits env blockType rest acc')"

fun forEntries ::
  "('m, 'e) Env \<Rightarrow> (string \<times> FileSystem) list \<Rightarrow> 'm AppManifest \<times> SourceMap
     \<Rightarrow> 'e + ('m AppManifest \<times> SourceMap)" where
  "forEntries env [] acc = Inr acc"
| "forEntries env ((blockType, blockContentOrFs) # rest) acc =
     (case forUnits env blockType (walk blockContentOrFs '''') acc of
        Inl e \<Rightarrow> Inl e
      | Inr acc' \<Rightarrow> forEntries env rest acc')"

record 'm Built =
  manifest :: "'m AppManifest"
  state :: "(string \<times> FileSystem) list"
  sourceMap :: SourceMap

definition App :: "('m, 'e) Env \<Rightarrow> State \<Rightarrow> 'e + 'm Built" where
  "App env st =
     (let fs = buildFs (fileSystem st);
          appManifest = manifestGen env;
          appSourceMap = buildSourceMap env appManifest
      in case forEntries env fs (appManifest, appSourceMap) of
           Inl e \<Rightarrow> Inl e
         | Inr (newManifest, newSourceMap) \<Rightarrow>
             Inr \<lparr>manifest = newManifest, state = fs, sourceMap = newSourceMap\<rparr>)"

section \<open>The units of a pass and their block keys\<close>

text \<open>
  The two nested loops of \<open>App\<close> visit the pairs of a block type and a unit in the order
  \<open>unitsOf\<close> lists them, and \<open>linkAll\<close> is the one loop over that list.
  \<open>registeredKeys\<close> collects the \<open>blockKey\<close> that \<open>compile\<close> computes at each step of that
  loop, from the manifest the step receives.
\<close>

fun unitsOf :: "(string \<times> FileSystem) list \<Rightarrow> (string \<times> TsContent) list" where
  "unitsOf [] = []"
| "unitsOf ((blockType, blockContentOrFs) # rest) =
     map (Pair blockType) (walk blockContentOrFs '''') @ unitsOf rest"

fun linkAll ::
  "('m, 'e) Env \<Rightarrow> (string \<times> TsContent) list \<Rightarrow> 'm AppManifest \<times> SourceMap
     \<Rightarrow> 'e + ('m AppManifest \<times> SourceMap)" where
  "linkAll env [] acc = Inr acc"
| "linkAll env ((blockType, tsContent) # rest) (appManifest, appSourceMap) =
     (case compile env blockType tsContent appManifest appSourceMap of
        Inl e \<Rightarrow> Inl e
      | Inr acc' \<Rightarrow> linkAll env rest acc')"

fun registeredKeys ::
  "('m, 'e) Env \<Rightarrow> (string \<times> TsContent) list \<Rightarrow> 'm AppManifest \<times> SourceMap \<Rightarrow> string list" where
  "registeredKeys env [] acc = []"
| "registeredKeys env ((blockType, tsContent) # rest) (appManifest, appSourceMap) =
     blockKeyOf appManifest blockType tsContent #
     (case compile env blockType tsContent appManifest appSourceMap of
        Inl e \<Rightarrow> []
      | Inr acc' \<Rightarrow> registeredKeys env rest acc')"

definition passUnits :: "State \<Rightarrow> (string \<times> TsContent) list" where
  "passUnits st = unitsOf (buildFs (fileSystem st))"

definition passKeys :: "('m, 'e) Env \<Rightarrow> State \<Rightarrow> string list" where
  "passKeys env st =
     registeredKeys env (passUnits st) (manifestGen env, buildSourceMap env (manifestGen env))"

text \<open>The entry that \<open>compile\<close> writes into the source map for a unit of a block type.\<close>

definition entryOf :: "('m, 'e) Env \<Rightarrow> string \<times> TsContent \<Rightarrow> TsContent" where
  "entryOf env bu =
     \<lparr>path = join env [currdir env, fst bu, path (snd bu)], content = content (snd bu)\<rparr>"

text \<open>The recognized source suffixes, as \<open>walk\<close> tests them.\<close>

definition recognized :: "string \<Rightarrow> bool" where
  "recognized p = (endsWith p ''.ts'' \<or> endsWith p ''.tsx'')"

text \<open>
  Every leaf of a flattened tree with the path \<open>walk\<close> builds for it, whatever its suffix:
  the reference against which the filter of \<open>walk\<close> is stated.
\<close>

fun leaves :: "FileSystem \<Rightarrow> string \<Rightarrow> TsContent list"
  and leavesEntries :: "(string \<times> FileSystem) list \<Rightarrow> string \<Rightarrow> TsContent list" where
  "leaves (Content fs) root = [\<lparr>path = root, content = fs\<rparr>]"
| "leaves (Object es) root = leavesEntries es root"
| "leavesEntries [] root = []"
| "leavesEntries ((nm, subdir) # rest) root =
     leaves subdir ((if root = '''' then '''' else root @ ''/'') @ nm) @ leavesEntries rest root"

fun leafUnitsOf :: "(string \<times> FileSystem) list \<Rightarrow> (string \<times> TsContent) list" where
  "leafUnitsOf [] = []"
| "leafUnitsOf ((blockType, blockContentOrFs) # rest) =
     map (Pair blockType) (leaves blockContentOrFs '''') @ leafUnitsOf rest"

section \<open>Traversal in stored order\<close>

text \<open>
  The traversal the specification describes, on the node tree itself: the children of a
  directory in the order in which the list holds them. \<open>plainNodes\<close> holds of a node list
  in which, at every level, sibling names are pairwise distinct and none is an array
  index.
\<close>

fun nodeName :: "FileSystemNode \<Rightarrow> string" where
  "nodeName (FileSystemNode nm v) = nm"

fun flattenValue :: "NodeValue \<Rightarrow> FileSystem" where
  "flattenValue (Directory es) = Object (buildFs es)"
| "flattenValue (File c) = Content c"

fun walkNode :: "NodeValue \<Rightarrow> string \<Rightarrow> TsContent list"
  and walkNodes :: "FileSystemNode list \<Rightarrow> string \<Rightarrow> TsContent list" where
  "walkNode (File c) root = (if recognized root then [\<lparr>path = root, content = c\<rparr>] else [])"
| "walkNode (Directory es) root = walkNodes es root"
| "walkNodes [] root = []"
| "walkNodes (FileSystemNode nm v # rest) root =
     walkNode v ((if root = '''' then '''' else root @ ''/'') @ nm) @ walkNodes rest root"

fun storedUnits :: "FileSystemNode list \<Rightarrow> (string \<times> TsContent) list" where
  "storedUnits [] = []"
| "storedUnits (FileSystemNode nm v # rest) = map (Pair nm) (walkNode v '''') @ storedUnits rest"

fun plainValue :: "NodeValue \<Rightarrow> bool"
  and plainNodes :: "FileSystemNode list \<Rightarrow> bool" where
  "plainValue (File c) = True"
| "plainValue (Directory es) = plainNodes es"
| "plainNodes [] = True"
| "plainNodes (FileSystemNode nm v # rest) =
     (arrayIndex nm = None \<and> nm \<notin> set (map nodeName rest) \<and> plainValue v \<and> plainNodes rest)"

section \<open>The toolchain's initialization\<close>

text \<open>
  \<^verbatim>\<open>
  const initializePromise = initialize({ wasmURL: "...", worker: false });
  \<close>
  is a statement of the module body: it runs once, when the module is evaluated, and it is
  the only call of \<open>initialize\<close> in the module. \<open>compile\<close> starts with
  \<^verbatim>\<open>await initializePromise\<close> and, unless that promise is rejected, goes on to
  \<open>importFromString\<close>. The events of a process that evaluates the module and then serves
  a sequence of calls of \<open>compile\<close>, in order:
\<close>

datatype Event = Initialize | AwaitInitializePromise | ImportFromString string

definition moduleEvaluation :: "Event list" where
  "moduleEvaluation = [Initialize]"

definition compileEvents :: "('m, 'e) Env \<Rightarrow> TsContent \<Rightarrow> Event list" where
  "compileEvents env unit =
     AwaitInitializePromise #
     (case initializePromise env of
        Some e \<Rightarrow> []
      | None \<Rightarrow> [ImportFromString (content unit)])"

definition processEvents :: "('m, 'e) Env \<Rightarrow> TsContent list \<Rightarrow> Event list" where
  "processEvents env requests = moduleEvaluation @ concat (map (compileEvents env) requests)"

section \<open>A concrete environment\<close>

text \<open>
  \<open>join\<close> of \<open>std/path\<close> on POSIX: the non-empty arguments joined with \<open>/\<close>, then
  normalised (empty and \<open>.\<close> segments dropped, \<open>..\<close> resolved, a leading and a trailing
  \<open>/\<close> kept).
\<close>

fun segments :: "string \<Rightarrow> string list" where
  "segments [] = [[]]"
| "segments (c # cs) =
     (if c = CHR ''/'' then [] # segments cs
      else (case segments cs of [] \<Rightarrow> [[c]] | s # ss \<Rightarrow> (c # s) # ss))"

fun joinWith :: "string \<Rightarrow> string list \<Rightarrow> string" where
  "joinWith sep [] = []"
| "joinWith sep [s] = s"
| "joinWith sep (s # t # ss) = s @ sep @ joinWith sep (t # ss)"

fun normalizeSegments :: "bool \<Rightarrow> string list \<Rightarrow> string list \<Rightarrow> string list" where
  "normalizeSegments allowAboveRoot res [] = rev res"
| "normalizeSegments allowAboveRoot res (s # ss) =
     (if s = [] \<or> s = ''.'' then normalizeSegments allowAboveRoot res ss
      else if s = ''..'' then
        (case res of
           [] \<Rightarrow> normalizeSegments allowAboveRoot (if allowAboveRoot then [''..''] else []) ss
         | r # rs \<Rightarrow>
             if r = ''..''
             then normalizeSegments allowAboveRoot (if allowAboveRoot then ''..'' # res else res) ss
             else normalizeSegments allowAboveRoot rs ss)
      else normalizeSegments allowAboveRoot (s # res) ss)"

definition normalize :: "string \<Rightarrow> string" where
  "normalize p =
     (if p = [] then ''.''
      else let isAbsolute = (hd p = CHR ''/'');
               trailingSeparator = (last p = CHR ''/'');
               res = joinWith ''/'' (normalizeSegments (\<not> isAbsolute) [] (segments p));
               res1 = (if res = [] \<and> \<not> isAbsolute then ''.'' else res);
               res2 = (if res1 \<noteq> [] \<and> trailingSeparator then res1 @ ''/'' else res1)
           in if isAbsolute then ''/'' @ res2 else res2)"

definition posixJoin :: "string list \<Rightarrow> string" where
  "posixJoin paths =
     (let joined = joinWith ''/'' (filter (\<lambda>p. p \<noteq> []) paths)
      in if joined = [] then ''.'' else normalize joined)"

text \<open>
  An environment for concrete runs: the toolchain is initialized, a source text loads as
  the module that carries it except the text \<open>syntax error\<close>, which fails to compile; the
  manifest is named \<open>acme\<close> and has one empty block type; its source map is empty.
\<close>

definition exampleEnv :: "(string, string) Env" where
  "exampleEnv =
     \<lparr>initializePromise = None,
      importFromString = (\<lambda>src. if src = ''syntax error'' then Inl ''CompileError'' else Inr src),
      currdir = ''file:///app/workspace'',
      join = posixJoin,
      manifestGen = [''name'' \<mapsto> Text ''acme'',
                     ''baseUrl'' \<mapsto> Text ''file:///app/workspace/manifest.gen.ts'',
                     ''loaders'' \<mapsto> Blocks Map.empty],
      buildSourceMap = (\<lambda>m. Map.empty)\<rparr>"

section \<open>Auxiliary notions for the proofs\<close>

text \<open>
  The property a node contributes to the object \<open>reduceFs\<close> builds, and two property lists
  that have the same keys in the same order and the same values except under the key \<open>n\<close>.
\<close>

fun flattenNode :: "FileSystemNode \<Rightarrow> string \<times> FileSystem" where
  "flattenNode (FileSystemNode nm v) = (nm, flattenValue v)"

definition agreeExcept :: "string \<Rightarrow> (string \<times> 'a) list \<Rightarrow> (string \<times> 'a) list \<Rightarrow> bool" where
  "agreeExcept n obj obj' =
     list_all2 (\<lambda>x y. fst x = fst y \<and> (fst x \<noteq> n \<longrightarrow> snd x = snd y)) obj obj'"

section \<open>The two loops as one\<close>

lemma forUnits_linkAll: "forUnits env bt us acc = linkAll env (map (Pair bt) us) acc"
proof (induction us arbitrary: acc)
  case Nil
  show ?case by simp
next
  case (Cons u us)
  obtain m sm where acc: "acc = (m, sm)" by (cases acc)
  show ?case unfolding acc by (simp add: Cons.IH split: sum.splits)
qed

lemma linkAll_append:
  "linkAll env (xs @ ys) acc =
     (case linkAll env xs acc of Inl e \<Rightarrow> Inl e | Inr acc' \<Rightarrow> linkAll env ys acc')"
proof (induction xs arbitrary: acc)
  case Nil
  show ?case by simp
next
  case (Cons x xs)
  obtain m sm where acc: "acc = (m, sm)" by (cases acc)
  obtain bt u where x: "x = (bt, u)" by (cases x)
  show ?case unfolding acc x by (simp add: Cons.IH split: sum.splits)
qed

lemma forEntries_linkAll: "forEntries env fs acc = linkAll env (unitsOf fs) acc"
proof (induction fs arbitrary: acc)
  case Nil
  show ?case by simp
next
  case (Cons entry fs)
  obtain bt sub where entry: "entry = (bt, sub)" by (cases entry)
  show ?case unfolding entry
    by (simp add: forUnits_linkAll linkAll_append Cons.IH split: sum.splits)
qed

lemma App_linkAll:
  "App env st =
     (case linkAll env (passUnits st) (manifestGen env, buildSourceMap env (manifestGen env)) of
        Inl e \<Rightarrow> Inl e
      | Inr (m, sm) \<Rightarrow> Inr \<lparr>manifest = m, state = buildFs (fileSystem st), sourceMap = sm\<rparr>)"
  by (simp add: App_def Let_def forEntries_linkAll passUnits_def)

section \<open>What a successful pass leaves in the manifest and the source map\<close>

lemma compile_Inr:
  "compile env bt u m sm = Inr (m', sm') \<longleftrightarrow>
     initializePromise env = None \<and>
     (\<exists>t. importFromString env (content u) = Inr t \<and>
          m' = m(bt \<mapsto> Blocks ((spread (m bt))(blockKeyOf m bt u \<mapsto> Module t))) \<and>
          sm' = sm(blockKeyOf m bt u \<mapsto> entryOf env (bt, u)))"
  by (auto simp: compile_def entryOf_def Let_def split: option.splits sum.splits)

lemma registeredKeys_length:
  "linkAll env us acc = Inr acc' \<Longrightarrow> length (registeredKeys env us acc) = length us"
proof (induction us arbitrary: acc)
  case Nil
  show ?case by simp
next
  case (Cons x us)
  obtain m sm where acc: "acc = (m, sm)" by (cases acc)
  obtain bt u where x: "x = (bt, u)" by (cases x)
  from Cons.prems show ?case unfolding acc x
    by (auto simp: Cons.IH split: sum.splits)
qed

lemma linkAll_sourceMap_other:
  "linkAll env us (m, sm) = Inr (m', sm') \<Longrightarrow> k \<notin> set (registeredKeys env us (m, sm))
     \<Longrightarrow> sm' k = sm k"
proof (induction us arbitrary: m sm)
  case Nil
  then show ?case by simp
next
  case (Cons x us)
  obtain bt u where x: "x = (bt, u)" by (cases x)
  from Cons.prems(1) obtain m1 sm1 where
    c: "compile env bt u m sm = Inr (m1, sm1)" and r: "linkAll env us (m1, sm1) = Inr (m', sm')"
    unfolding x by (auto split: sum.splits)
  from Cons.prems(2) c have k1: "k \<noteq> blockKeyOf m bt u"
    and k2: "k \<notin> set (registeredKeys env us (m1, sm1))"
    unfolding x by auto
  have "sm' k = sm1 k" by (rule Cons.IH [OF r k2])
  also from c k1 have "sm1 k = sm k" by (auto simp: compile_Inr)
  finally show ?case .
qed

lemma linkAll_sourceMap_dom:
  "linkAll env us (m, sm) = Inr (m', sm')
     \<Longrightarrow> dom sm' = dom sm \<union> set (registeredKeys env us (m, sm))"
proof (induction us arbitrary: m sm)
  case Nil
  then show ?case by simp
next
  case (Cons x us)
  obtain bt u where x: "x = (bt, u)" by (cases x)
  from Cons.prems(1) obtain m1 sm1 where
    c: "compile env bt u m sm = Inr (m1, sm1)" and r: "linkAll env us (m1, sm1) = Inr (m', sm')"
    unfolding x by (auto split: sum.splits)
  have "dom sm' = dom sm1 \<union> set (registeredKeys env us (m1, sm1))" by (rule Cons.IH [OF r])
  moreover from c have "dom sm1 = insert (blockKeyOf m bt u) (dom sm)"
    by (auto simp: compile_Inr)
  ultimately show ?case unfolding x using c by simp
qed

lemma linkAll_sourceMap_last:
  "linkAll env us (m, sm) = Inr (m', sm') \<Longrightarrow> i < length us
     \<Longrightarrow> \<forall>j. i < j \<and> j < length us \<longrightarrow>
           registeredKeys env us (m, sm) ! j \<noteq> registeredKeys env us (m, sm) ! i
     \<Longrightarrow> sm' (registeredKeys env us (m, sm) ! i) = Some (entryOf env (us ! i))"
proof (induction us arbitrary: m sm i)
  case Nil
  then show ?case by simp
next
  case (Cons x us)
  obtain bt u where x: "x = (bt, u)" by (cases x)
  from Cons.prems(1) obtain m1 sm1 where
    c: "compile env bt u m sm = Inr (m1, sm1)" and r: "linkAll env us (m1, sm1) = Inr (m', sm')"
    unfolding x by (auto split: sum.splits)
  let ?ks = "registeredKeys env us (m1, sm1)"
  have ks: "registeredKeys env (x # us) (m, sm) = blockKeyOf m bt u # ?ks"
    unfolding x using c by simp
  have len: "length ?ks = length us" by (rule registeredKeys_length [OF r])
  show ?case
  proof (cases i)
    case 0
    have "blockKeyOf m bt u \<notin> set ?ks"
    proof
      assume "blockKeyOf m bt u \<in> set ?ks"
      then obtain j where j: "j < length ?ks" "?ks ! j = blockKeyOf m bt u"
        by (auto simp: in_set_conv_nth)
      with Cons.prems(3) [rule_format, of "Suc j"] 0 len show False
        unfolding ks by simp
    qed
    then have "sm' (blockKeyOf m bt u) = sm1 (blockKeyOf m bt u)"
      by (rule linkAll_sourceMap_other [OF r])
    also from c have "\<dots> = Some (entryOf env (bt, u))" by (auto simp: compile_Inr)
    finally show ?thesis unfolding ks using 0 x by simp
  next
    case (Suc n)
    with Cons.prems(2) have n: "n < length us" by simp
    have "\<forall>j. n < j \<and> j < length us \<longrightarrow> ?ks ! j \<noteq> ?ks ! n"
    proof (intro allI impI)
      fix j assume "n < j \<and> j < length us"
      with Cons.prems(3) [rule_format, of "Suc j"] Suc show "?ks ! j \<noteq> ?ks ! n"
        unfolding ks by simp
    qed
    from Cons.IH [OF r n this] show ?thesis unfolding ks using Suc by simp
  qed
qed



lemma linkAll_fails:
  "(bt, u) \<in> set us \<Longrightarrow> importFromString env (content u) = Inl e
     \<Longrightarrow> \<exists>e'. linkAll env us acc = Inl e'"
proof (induction us arbitrary: acc)
  case Nil
  then show ?case by simp
next
  case (Cons x us)
  obtain m sm where acc: "acc = (m, sm)" by (cases acc)
  obtain bt' u' where x: "x = (bt', u')" by (cases x)
  show ?case
  proof (cases "compile env bt' u' m sm")
    case (Inl e')
    then show ?thesis unfolding acc x by simp
  next
    case (Inr acc')
    then have "importFromString env (content u') \<noteq> Inl e"
      by (cases acc') (auto simp: compile_Inr)
    with Cons.prems have "(bt, u) \<in> set us" unfolding x by auto
    from Cons.IH [OF this Cons.prems(2), of acc'] Inr show ?thesis unfolding acc x by simp
  qed
qed

lemma registeredKeys_closed:
  "linkAll env us (m, sm) = Inr (m', sm') \<Longrightarrow> m ''name'' = Some (Text ns)
     \<Longrightarrow> ''name'' \<notin> fst ` set us
     \<Longrightarrow> registeredKeys env us (m, sm) = map (\<lambda>(c, u). ns @ ''/'' @ c @ ''/'' @ path u) us"
proof (induction us arbitrary: m sm)
  case Nil
  then show ?case by simp
next
  case (Cons x us)
  obtain bt u where x: "x = (bt, u)" by (cases x)
  from Cons.prems(1) obtain m1 sm1 where
    c: "compile env bt u m sm = Inr (m1, sm1)" and r: "linkAll env us (m1, sm1) = Inr (m', sm')"
    unfolding x by (auto split: sum.splits)
  from Cons.prems(3) have bt: "bt \<noteq> ''name''" and rest: "''name'' \<notin> fst ` set us"
    unfolding x by auto
  from c bt Cons.prems(2) have "m1 ''name'' = Some (Text ns)" by (auto simp: compile_Inr)
  from Cons.IH [OF r this rest] c Cons.prems(2) show ?case
    unfolding x by (simp add: blockKeyOf_def toString_def)
qed

section \<open>Flattening: property order and repeated names\<close>

lemma reduceFs_node:
  "reduceFs acc (FileSystemNode nm v # nodes) = reduceFs (setProperty acc nm (flattenValue v)) nodes"
  by (cases v) (simp_all add: buildFs_def)

lemma reduceFs_append: "reduceFs acc (xs @ ys) = reduceFs (reduceFs acc xs) ys"
proof (induction xs arbitrary: acc)
  case Nil
  show ?case by simp
next
  case (Cons x xs)
  obtain nm v where x: "x = FileSystemNode nm v" by (cases x)
  show ?case unfolding x by (simp add: reduceFs_node Cons.IH del: reduceFs.simps)
qed

lemma keys_replaceValue: "map fst (replaceValue k v obj) = map fst obj"
  by (induction obj) auto

lemma keys_insertIndexKey: "set (map fst (insertIndexKey i k v obj)) = insert k (set (map fst obj))"
  by (induction i k v obj rule: insertIndexKey.induct)
    (simp_all add: insert_commute split: option.splits)

lemma distinct_insertIndexKey:
  "k \<notin> set (map fst obj) \<Longrightarrow> distinct (map fst obj)
     \<Longrightarrow> distinct (map fst (insertIndexKey i k v obj))"
proof (induction obj)
  case Nil
  then show ?case by simp
next
  case (Cons x obj)
  obtain k' v' where x: "x = (k', v')" by (cases x)
  from Cons.prems have "k' \<notin> set (map fst (insertIndexKey i k v obj))"
    unfolding x keys_insertIndexKey by auto
  with Cons show ?case unfolding x by (auto split: option.splits)
qed

lemma hasOwn_keys: "hasOwn obj k \<longleftrightarrow> k \<in> set (map fst obj)"
  by (simp add: hasOwn_def map_of_eq_None_iff)

lemma distinct_setProperty:
  "distinct (map fst obj) \<Longrightarrow> distinct (map fst (setProperty obj k v))"
  by (auto simp: setProperty_def hasOwn_keys keys_replaceValue distinct_insertIndexKey
      split: option.splits)

lemma distinct_reduceFs: "distinct (map fst acc) \<Longrightarrow> distinct (map fst (reduceFs acc nodes))"
proof (induction nodes arbitrary: acc)
  case Nil
  then show ?case by simp
next
  case (Cons x nodes)
  obtain nm v where x: "x = FileSystemNode nm v" by (cases x)
  from Cons.prems show ?case unfolding x reduceFs_node
    by (intro Cons.IH distinct_setProperty)
qed

lemma agreeExcept_Nil: "agreeExcept n [] obj' \<longleftrightarrow> obj' = []"
  by (simp add: agreeExcept_def)

lemma agreeExcept_Cons1:
  "agreeExcept n (x # obj) obj' \<longleftrightarrow>
     (\<exists>y rest. obj' = y # rest \<and> fst x = fst y \<and> (fst x \<noteq> n \<longrightarrow> snd x = snd y) \<and>
        agreeExcept n obj rest)"
  by (auto simp: agreeExcept_def list_all2_Cons1)

lemma agreeExcept_Cons:
  "agreeExcept n (x # obj) (y # obj') \<longleftrightarrow>
     fst x = fst y \<and> (fst x \<noteq> n \<longrightarrow> snd x = snd y) \<and> agreeExcept n obj obj'"
  by (simp add: agreeExcept_def)

lemma agreeExcept_keys: "agreeExcept n obj obj' \<Longrightarrow> map fst obj = map fst obj'"
  by (induction obj arbitrary: obj') (auto simp: agreeExcept_Nil agreeExcept_Cons1)

lemma agreeExcept_refl: "agreeExcept n obj obj"
  unfolding agreeExcept_def by (simp add: list_all2_same)

lemma agreeExcept_absent: "agreeExcept n obj obj' \<Longrightarrow> n \<notin> set (map fst obj) \<Longrightarrow> obj = obj'"
  by (induction obj arbitrary: obj') (auto simp: agreeExcept_Nil agreeExcept_Cons1 prod_eq_iff)

lemma agreeExcept_replaceValue:
  "agreeExcept n obj obj' \<Longrightarrow> agreeExcept n (replaceValue k v obj) (replaceValue k v obj')"
  by (induction obj arbitrary: obj')
    (auto simp: agreeExcept_Nil agreeExcept_Cons1 agreeExcept_Cons split: if_splits)

lemma agreeExcept_replaceValue_diff: "agreeExcept n (replaceValue n v obj) (replaceValue n w obj)"
  by (induction obj) (auto simp: agreeExcept_Cons agreeExcept_refl agreeExcept_Nil)

lemma agreeExcept_insertIndexKey:
  "agreeExcept n obj obj' \<Longrightarrow> (k \<noteq> n \<longrightarrow> v = w)
     \<Longrightarrow> agreeExcept n (insertIndexKey i k v obj) (insertIndexKey i k w obj')"
  by (induction obj arbitrary: obj')
    (auto simp: agreeExcept_Nil agreeExcept_Cons1 agreeExcept_Cons split: option.splits if_splits)

lemma agreeExcept_snoc:
  "agreeExcept n obj obj' \<Longrightarrow> (k \<noteq> n \<longrightarrow> v = w) \<Longrightarrow> agreeExcept n (obj @ [(k, v)]) (obj' @ [(k, w)])"
  unfolding agreeExcept_def by (simp add: list_all2_appendI)

lemma agreeExcept_setProperty:
  "agreeExcept n obj obj' \<Longrightarrow> agreeExcept n (setProperty obj k v) (setProperty obj' k v)"
  using agreeExcept_keys [of n obj obj']
  by (auto simp: setProperty_def hasOwn_keys agreeExcept_replaceValue agreeExcept_insertIndexKey
      agreeExcept_snoc split: option.splits)

lemma agreeExcept_setProperty_diff: "agreeExcept n (setProperty obj n v) (setProperty obj n w)"
  by (auto simp: setProperty_def agreeExcept_replaceValue_diff agreeExcept_insertIndexKey
      agreeExcept_snoc agreeExcept_refl split: option.splits)

lemma agreeExcept_reduceFs:
  "agreeExcept n acc acc' \<Longrightarrow> agreeExcept n (reduceFs acc nodes) (reduceFs acc' nodes)"
proof (induction nodes arbitrary: acc acc')
  case Nil
  then show ?case by simp
next
  case (Cons x nodes)
  obtain nm v where x: "x = FileSystemNode nm v" by (cases x)
  from Cons.prems show ?case unfolding x reduceFs_node
    by (intro Cons.IH agreeExcept_setProperty)
qed

lemma replaceValue_agree:
  "agreeExcept n obj obj' \<Longrightarrow> distinct (map fst obj) \<Longrightarrow> replaceValue n v obj = replaceValue n v obj'"
proof (induction obj arbitrary: obj')
  case Nil
  then show ?case by (simp add: agreeExcept_def)
next
  case (Cons x obj)
  from Cons.prems(1) obtain y rest where obj': "obj' = y # rest"
    by (cases obj') (auto simp: agreeExcept_def)
  obtain k a where x: "x = (k, a)" by (cases x)
  obtain k' b where y: "y = (k', b)" by (cases y)
  from Cons.prems(1) have kk: "k' = k" and ab: "k \<noteq> n \<longrightarrow> a = b" and r: "agreeExcept n obj rest"
    unfolding obj' x y by (auto simp: agreeExcept_Cons)
  show ?case
  proof (cases "k = n")
    case True
    with Cons.prems(2) have "n \<notin> set (map fst obj)" unfolding x by simp
    with r have "obj = rest" by (rule agreeExcept_absent)
    with True kk show ?thesis unfolding obj' x y by simp
  next
    case False
    from Cons.prems(2) have "distinct (map fst obj)" by simp
    from Cons.IH [OF r this] False kk ab show ?thesis unfolding obj' x y by simp
  qed
qed

lemma setProperty_agree:
  "agreeExcept n obj obj' \<Longrightarrow> distinct (map fst obj) \<Longrightarrow> setProperty obj n v = setProperty obj' n v"
proof (cases "n \<in> set (map fst obj)")
  case True
  assume a: "agreeExcept n obj obj'" and d: "distinct (map fst obj)"
  from True agreeExcept_keys [OF a] have "n \<in> set (map fst obj')" by simp
  with True replaceValue_agree [OF a d] show ?thesis by (simp add: setProperty_def hasOwn_keys)
next
  case False
  assume a: "agreeExcept n obj obj'"
  from a False have "obj = obj'" by (rule agreeExcept_absent)
  then show ?thesis by simp
qed

lemma buildFs_shadowed:
  "buildFs (xs @ FileSystemNode n v1 # ys @ FileSystemNode n v2 # zs) =
   buildFs (xs @ FileSystemNode n v1' # ys @ FileSystemNode n v2 # zs)"
proof -
  let ?a = "reduceFs [] xs"
  let ?b = "reduceFs (setProperty ?a n (flattenValue v1)) ys"
  let ?b' = "reduceFs (setProperty ?a n (flattenValue v1')) ys"
  have "agreeExcept n ?b ?b'"
    by (intro agreeExcept_reduceFs agreeExcept_setProperty_diff)
  moreover have "distinct (map fst ?b)"
    by (intro distinct_reduceFs distinct_setProperty) simp
  ultimately have "setProperty ?b n (flattenValue v2) = setProperty ?b' n (flattenValue v2)"
    by (rule setProperty_agree)
  then show ?thesis
    by (simp add: buildFs_def reduceFs_append reduceFs_node del: reduceFs.simps)
qed

lemma map_of_replaceValue:
  "map_of (replaceValue k v obj) x =
     (if x = k \<and> map_of obj k \<noteq> None then Some v else map_of obj x)"
  by (induction obj) auto

lemma map_of_insertIndexKey:
  "map_of obj k = None
     \<Longrightarrow> map_of (insertIndexKey i k v obj) x = (if x = k then Some v else map_of obj x)"
  by (induction i k v obj rule: insertIndexKey.induct) (auto split: option.splits if_splits)

lemma map_of_setProperty: "map_of (setProperty obj k v) = (map_of obj)(k \<mapsto> v)"
proof
  fix x
  show "map_of (setProperty obj k v) x = ((map_of obj)(k \<mapsto> v)) x"
    by (auto simp: setProperty_def hasOwn_def map_of_replaceValue map_of_insertIndexKey
        map_add_def split: option.splits)
qed

lemma map_of_reduceFs_other:
  "n \<notin> set (map nodeName nodes) \<Longrightarrow> map_of (reduceFs acc nodes) n = map_of acc n"
proof (induction nodes arbitrary: acc)
  case Nil
  show ?case by simp
next
  case (Cons x nodes)
  obtain nm v where x: "x = FileSystemNode nm v" by (cases x)
  from Cons.prems have "n \<noteq> nm" and "n \<notin> set (map nodeName nodes)" unfolding x by auto
  then show ?case unfolding x reduceFs_node by (simp add: Cons.IH map_of_setProperty)
qed

lemma buildFs_last_binding:
  "n \<notin> set (map nodeName zs)
     \<Longrightarrow> map_of (buildFs (xs @ FileSystemNode n v # zs)) n = Some (flattenValue v)"
  by (simp add: buildFs_def reduceFs_append reduceFs_node map_of_reduceFs_other map_of_setProperty
      del: reduceFs.simps)

section \<open>Which leaves become units, and under which keys\<close>

lemma walk_filter:
  "walk fs root = filter (\<lambda>u. recognized (path u)) (leaves fs root)"
  "walkEntries es root = filter (\<lambda>u. recognized (path u)) (leavesEntries es root)"
  by (induction fs root and es root rule: walk_walkEntries.induct) (simp_all add: recognized_def)

lemma unitsOf_filter:
  "unitsOf fs = filter (\<lambda>(c, u). recognized (path u)) (leafUnitsOf fs)"
  by (induction fs rule: unitsOf.induct) (simp_all add: walk_filter filter_map comp_def)

lemma unitsOf_member:
  "(c, u) \<in> set (unitsOf fs) \<longleftrightarrow> (\<exists>sub. (c, sub) \<in> set fs \<and> u \<in> set (walk sub ''''))"
  by (induction fs rule: unitsOf.induct) auto

lemma unitsOf_recognized: "(c, u) \<in> set (unitsOf fs) \<Longrightarrow> recognized (path u)"
  by (simp add: unitsOf_filter)

lemma keys_setProperty: "set (map fst (setProperty obj k v)) = insert k (set (map fst obj))"
  by (auto simp: setProperty_def hasOwn_keys keys_replaceValue keys_insertIndexKey
      simp del: set_map split: option.splits)

lemma keys_reduceFs:
  "set (map fst (reduceFs acc nodes)) = set (map fst acc) \<union> set (map nodeName nodes)"
proof (induction nodes arbitrary: acc)
  case Nil
  show ?case by simp
next
  case (Cons x nodes)
  obtain nm v where x: "x = FileSystemNode nm v" by (cases x)
  show ?case unfolding x reduceFs_node Cons.IH keys_setProperty by auto
qed

lemma unitsOf_top_level_content:
  assumes "distinct (map fst fs)" and "(c, Content s) \<in> set fs"
  shows "(c, u) \<notin> set (unitsOf fs)"
proof
  assume "(c, u) \<in> set (unitsOf fs)"
  then obtain sub where sub: "(c, sub) \<in> set fs" and u: "u \<in> set (walk sub '''')"
    by (auto simp: unitsOf_member)
  from assms sub have "sub = Content s" by (meson eq_key_imp_eq_value)
  with u show False by (simp add: endsWith_def suffix_to_prefix)
qed

lemma recognized_append: "recognized p \<Longrightarrow> recognized (x @ p)"
  by (auto simp: recognized_def endsWith_def suffix_def)

lemma suffix_clash:
  "suffix a k \<Longrightarrow> suffix b k \<Longrightarrow> \<not> suffix a b \<Longrightarrow> \<not> suffix b a \<Longrightarrow> False"
  using suffix_same_cases by blast

lemma recognized_not_other:
  assumes "recognized k"
  shows "\<not> endsWith k ''.md''" and "\<not> endsWith k ''.json''" and "\<not> endsWith k ''/''"
proof -
  have ts: "\<not> suffix ''.ts'' ''.md''" "\<not> suffix ''.md'' ''.ts''"
    "\<not> suffix ''.tsx'' ''.md''" "\<not> suffix ''.md'' ''.tsx''"
    "\<not> suffix ''.ts'' ''.json''" "\<not> suffix ''.json'' ''.ts''"
    "\<not> suffix ''.tsx'' ''.json''" "\<not> suffix ''.json'' ''.tsx''"
    "\<not> suffix ''.ts'' ''/''" "\<not> suffix ''/'' ''.ts''"
    "\<not> suffix ''.tsx'' ''/''" "\<not> suffix ''/'' ''.tsx''"
    by (simp_all add: suffix_to_prefix)
  from assms show "\<not> endsWith k ''.md''" "\<not> endsWith k ''.json''" "\<not> endsWith k ''/''"
    unfolding recognized_def endsWith_def using ts suffix_clash by blast+
qed

lemma registeredKeys_shape:
  "linkAll env us (m, sm) = Inr (m', sm') \<Longrightarrow> i < length us
     \<Longrightarrow> \<exists>ns. registeredKeys env us (m, sm) ! i =
              ns @ ''/'' @ fst (us ! i) @ ''/'' @ path (snd (us ! i))"
proof (induction us arbitrary: m sm i)
  case Nil
  then show ?case by simp
next
  case (Cons x us)
  obtain bt u where x: "x = (bt, u)" by (cases x)
  from Cons.prems(1) obtain m1 sm1 where
    c: "compile env bt u m sm = Inr (m1, sm1)" and r: "linkAll env us (m1, sm1) = Inr (m', sm')"
    unfolding x by (auto split: sum.splits)
  have ks: "registeredKeys env (x # us) (m, sm) = blockKeyOf m bt u # registeredKeys env us (m1, sm1)"
    unfolding x using c by simp
  show ?case
  proof (cases i)
    case 0
    then show ?thesis unfolding ks x by (auto simp: blockKeyOf_def)
  next
    case (Suc n)
    with Cons.prems(2) have "n < length us" by simp
    from Cons.IH [OF r this] Suc show ?thesis unfolding ks by simp
  qed
qed

lemma linkAll_manifest_present:
  "linkAll env us (m, sm) = Inr (m', sm') \<Longrightarrow> m c = Some (Blocks b) \<Longrightarrow> b k \<noteq> None
     \<Longrightarrow> \<exists>b'. m' c = Some (Blocks b') \<and> b' k \<noteq> None"
proof (induction us arbitrary: m sm b)
  case Nil
  then show ?case by simp
next
  case (Cons x us)
  obtain bt u where x: "x = (bt, u)" by (cases x)
  from Cons.prems(1) obtain m1 sm1 where
    c: "compile env bt u m sm = Inr (m1, sm1)" and r: "linkAll env us (m1, sm1) = Inr (m', sm')"
    unfolding x by (auto split: sum.splits)
  from c Cons.prems(2,3) have "\<exists>b1. m1 c = Some (Blocks b1) \<and> b1 k \<noteq> None"
    by (cases "bt = c") (auto simp: compile_Inr spread_def)
  then obtain b1 where "m1 c = Some (Blocks b1)" "b1 k \<noteq> None" by blast
  from Cons.IH [OF r this] show ?case .
qed

lemma linkAll_manifest_registered:
  "linkAll env us (m, sm) = Inr (m', sm') \<Longrightarrow> i < length us
     \<Longrightarrow> \<exists>b. m' (fst (us ! i)) = Some (Blocks b) \<and> b (registeredKeys env us (m, sm) ! i) \<noteq> None"
proof (induction us arbitrary: m sm i)
  case Nil
  then show ?case by simp
next
  case (Cons x us)
  obtain bt u where x: "x = (bt, u)" by (cases x)
  from Cons.prems(1) obtain m1 sm1 where
    c: "compile env bt u m sm = Inr (m1, sm1)" and r: "linkAll env us (m1, sm1) = Inr (m', sm')"
    unfolding x by (auto split: sum.splits)
  have ks: "registeredKeys env (x # us) (m, sm) = blockKeyOf m bt u # registeredKeys env us (m1, sm1)"
    unfolding x using c by simp
  show ?case
  proof (cases i)
    case 0
    from c obtain b1 where "m1 bt = Some (Blocks b1)" "b1 (blockKeyOf m bt u) \<noteq> None"
      by (auto simp: compile_Inr)
    from linkAll_manifest_present [OF r this] 0 show ?thesis unfolding ks x by simp
  next
    case (Suc n)
    with Cons.prems(2) have "n < length us" by simp
    from Cons.IH [OF r this] Suc show ?thesis unfolding ks by simp
  qed
qed

lemma App_Inr:
  "App env st = Inr r \<Longrightarrow>
     linkAll env (passUnits st) (manifestGen env, buildSourceMap env (manifestGen env)) =
       Inr (manifest r, sourceMap r) \<and> state r = buildFs (fileSystem st)"
  by (auto simp: App_linkAll split: sum.splits)

lemma reduceFs_plain:
  "distinct (map nodeName nodes) \<Longrightarrow> \<forall>nd \<in> set nodes. arrayIndex (nodeName nd) = None
     \<Longrightarrow> set (map fst acc) \<inter> set (map nodeName nodes) = {}
     \<Longrightarrow> reduceFs acc nodes = acc @ map flattenNode nodes"
proof (induction nodes arbitrary: acc)
  case Nil
  show ?case by simp
next
  case (Cons x nodes)
  obtain nm v where x: "x = FileSystemNode nm v" by (cases x)
  from Cons.prems have nm: "nm \<notin> set (map fst acc)" "arrayIndex nm = None"
    and d: "distinct (map nodeName nodes)" "\<forall>nd \<in> set nodes. arrayIndex (nodeName nd) = None"
    and r: "set (map fst (acc @ [(nm, flattenValue v)])) \<inter> set (map nodeName nodes) = {}"
    unfolding x by auto
  from nm have "setProperty acc nm (flattenValue v) = acc @ [(nm, flattenValue v)]"
    by (simp add: setProperty_def hasOwn_keys)
  with Cons.IH [OF d r] show ?case unfolding x reduceFs_node by simp
qed

lemma plainNodes_names:
  "plainNodes nodes \<Longrightarrow> distinct (map nodeName nodes) \<and> (\<forall>nd \<in> set nodes. arrayIndex (nodeName nd) = None)"
proof (induction nodes)
  case Nil
  show ?case by simp
next
  case (Cons x nodes)
  obtain nm v where x: "x = FileSystemNode nm v" by (cases x)
  from Cons show ?case unfolding x by auto
qed

lemma buildFs_plain: "plainNodes nodes \<Longrightarrow> buildFs nodes = map flattenNode nodes"
  using plainNodes_names [of nodes] reduceFs_plain [of nodes "[]"] by (simp add: buildFs_def)

lemma walk_plain:
  "plainValue v \<Longrightarrow> walk (flattenValue v) root = walkNode v root"
  "plainNodes nodes \<Longrightarrow> walkEntries (map flattenNode nodes) root = walkNodes nodes root"
  by (induction v root and nodes root rule: walkNode_walkNodes.induct)
    (auto simp: buildFs_plain recognized_def)

lemma unitsOf_plain: "plainNodes nodes \<Longrightarrow> unitsOf (map flattenNode nodes) = storedUnits nodes"
proof (induction nodes)
  case Nil
  show ?case by simp
next
  case (Cons x nodes)
  obtain nm v where x: "x = FileSystemNode nm v" by (cases x)
  from Cons show ?case unfolding x by (simp add: walk_plain)
qed

lemma Inr_projr: "\<not> isl x \<Longrightarrow> x = Inr (projr x)"
  by simp

lemma passUnits_categories:
  "(c, u) \<in> set (passUnits st) \<Longrightarrow> c \<in> set (map nodeName (fileSystem st))"
proof -
  assume "(c, u) \<in> set (passUnits st)"
  then obtain sub where "(c, sub) \<in> set (buildFs (fileSystem st))"
    by (auto simp: passUnits_def unitsOf_member)
  then have "c \<in> set (map fst (buildFs (fileSystem st)))" by force
  then show ?thesis unfolding buildFs_def keys_reduceFs by simp
qed

section \<open>The claims\<close>

text \<open>The definitions a concrete tree is flattened and walked with, and a concrete pass run.\<close>

lemmas evalFs = buildFs_def setProperty_def hasOwn_def arrayIndex_def digitValue_def
  endsWith_def suffix_to_prefix passUnits_def

lemmas evalApp = App_def compile_def exampleEnv_def blockKeyOf_def toString_def spread_def
  posixJoin_def normalize_def Let_def passKeys_def entryOf_def

subsection \<open>C1\<close>

text \<open>
  C1. If any source unit of a build pass fails to compile or load (\<open>importFromString\<close>
  throws for its content), the whole pass fails: \<open>App\<close> returns the failure and no
  result, so no manifest and no source map with entries of the units processed before.
  The manifest and source map from before the pass are values the pass only reads.
\<close>

theorem App_fails_when_a_unit_fails:
  "(blockType, unit) \<in> set (passUnits st) \<Longrightarrow> importFromString env (content unit) = Inl e
     \<Longrightarrow> \<exists>e'. App env st = Inl e'"
proof -
  assume a: "(blockType, unit) \<in> set (passUnits st)"
    and b: "importFromString env (content unit) = Inl e"
  from linkAll_fails [OF a b] obtain e' where
    "linkAll env (passUnits st) (manifestGen env, buildSourceMap env (manifestGen env)) = Inl e'"
    by blast
  then show ?thesis by (simp add: App_linkAll)
qed

text \<open>The third of five units fails to compile.\<close>

theorem App_fails_when_a_unit_fails_witness:
  "(''loaders'', \<lparr>path = ''c.ts'', content = ''syntax error''\<rparr>) \<in> set (passUnits
      \<lparr>fileSystem = [FileSystemNode ''loaders'' (Directory
         [FileSystemNode ''a.ts'' (File ''A''), FileSystemNode ''b.ts'' (File ''B''),
          FileSystemNode ''c.ts'' (File ''syntax error''), FileSystemNode ''d.ts'' (File ''D''),
          FileSystemNode ''e.ts'' (File ''E'')])]\<rparr>) \<and>
   importFromString exampleEnv ''syntax error'' = Inl ''CompileError'' \<and>
   (\<exists>e'. App exampleEnv
      \<lparr>fileSystem = [FileSystemNode ''loaders'' (Directory
         [FileSystemNode ''a.ts'' (File ''A''), FileSystemNode ''b.ts'' (File ''B''),
          FileSystemNode ''c.ts'' (File ''syntax error''), FileSystemNode ''d.ts'' (File ''D''),
          FileSystemNode ''e.ts'' (File ''E'')])]\<rparr> = Inl e')"
proof -
  let ?st = "\<lparr>fileSystem = [FileSystemNode ''loaders'' (Directory
         [FileSystemNode ''a.ts'' (File ''A''), FileSystemNode ''b.ts'' (File ''B''),
          FileSystemNode ''c.ts'' (File ''syntax error''), FileSystemNode ''d.ts'' (File ''D''),
          FileSystemNode ''e.ts'' (File ''E'')])]\<rparr>"
  have h1: "(''loaders'', \<lparr>path = ''c.ts'', content = ''syntax error''\<rparr>) \<in> set (passUnits ?st)"
    by (simp add: evalFs)
  have h2: "importFromString exampleEnv (content \<lparr>path = ''c.ts'', content = ''syntax error''\<rparr>)
      = Inl ''CompileError''"
    by (simp add: exampleEnv_def)
  from App_fails_when_a_unit_fails [OF h1 h2] h1 h2 show ?thesis by simp
qed

subsection \<open>C2\<close>

text \<open>
  C2, as the code has it. The toolchain is initialized exactly once per process, by the
  module body, as the first event of the process and whether or not a call of \<open>compile\<close>
  ever follows; every call of \<open>compile\<close> starts by awaiting that one promise and never
  calls \<open>initialize\<close> itself.
\<close>

theorem initialize_once:
  "length (filter (\<lambda>ev. ev = Initialize) (processEvents env requests)) = 1 \<and>
   hd (processEvents env requests) = Initialize \<and>
   length (filter (\<lambda>ev. ev = AwaitInitializePromise) (processEvents env requests)) =
     length requests \<and>
   (\<forall>unit \<in> set requests.
      hd (compileEvents env unit) = AwaitInitializePromise \<and>
      Initialize \<notin> set (compileEvents env unit))"
proof -
  have a: "filter (\<lambda>ev. ev = Initialize) (concat (map (compileEvents env) requests)) = []"
    by (induction requests) (auto simp: compileEvents_def split: option.splits)
  have b: "length (filter (\<lambda>ev. ev = AwaitInitializePromise)
      (concat (map (compileEvents env) requests))) = length requests"
    by (induction requests) (auto simp: compileEvents_def split: option.splits)
  show ?thesis
    by (auto simp: processEvents_def moduleEvaluation_def a b compileEvents_def
        split: option.splits)
qed

text \<open>Two calls of \<open>compile\<close> after the module has been evaluated.\<close>

theorem initialize_once_witness:
  "processEvents exampleEnv [\<lparr>path = ''a.ts'', content = ''A''\<rparr>, \<lparr>path = ''b.ts'', content = ''B''\<rparr>] =
     [Initialize, AwaitInitializePromise, ImportFromString ''A'',
      AwaitInitializePromise, ImportFromString ''B''] \<and>
   length (filter (\<lambda>ev. ev = Initialize) (processEvents exampleEnv
     [\<lparr>path = ''a.ts'', content = ''A''\<rparr>, \<lparr>path = ''b.ts'', content = ''B''\<rparr>])) = 1"
  using initialize_once [of exampleEnv
      "[\<lparr>path = ''a.ts'', content = ''A''\<rparr>, \<lparr>path = ''b.ts'', content = ''B''\<rparr>]"]
  by (simp add: processEvents_def moduleEvaluation_def compileEvents_def exampleEnv_def)

text \<open>
  The claim says that no initialization work is started before the first compile request.
  A process that evaluates the module and never calls \<open>compile\<close> has initialized the
  toolchain all the same.
\<close>

theorem eager_initialize_counterexample:
  "processEvents exampleEnv [] = [Initialize]"
  by (simp add: processEvents_def moduleEvaluation_def)

subsection \<open>C3\<close>

text \<open>
  Where the manifest's \<open>name\<close> is the string \<open>ns\<close> and no top-level entry of the tree is
  called \<open>name\<close>, every unit of a successful pass is registered under the key
  \<open>ns/blockType/path\<close>, \<open>path\<close> being the path \<open>walk\<close> emits for the unit: the source map has
  that key, the manifest has it under the block type, and it does not end in a slash.
\<close>

lemma block_key_without_name_entry:
  "App env st = Inr r \<Longrightarrow> manifestGen env ''name'' = Some (Text ns)
     \<Longrightarrow> ''name'' \<notin> set (map nodeName (fileSystem st))
     \<Longrightarrow> passKeys env st = map (\<lambda>(c, u). ns @ ''/'' @ c @ ''/'' @ path u) (passUnits st) \<and>
         (\<forall>(c, u) \<in> set (passUnits st).
            sourceMap r (ns @ ''/'' @ c @ ''/'' @ path u) \<noteq> None \<and>
            (\<exists>b. manifest r c = Some (Blocks b) \<and> b (ns @ ''/'' @ c @ ''/'' @ path u) \<noteq> None) \<and>
            \<not> endsWith (ns @ ''/'' @ c @ ''/'' @ path u) ''/'')"
proof -
  assume app: "App env st = Inr r" and name: "manifestGen env ''name'' = Some (Text ns)"
    and cat: "''name'' \<notin> set (map nodeName (fileSystem st))"
  let ?us = "passUnits st"
  let ?ks = "passKeys env st"
  let ?key = "\<lambda>(c, u). ns @ ''/'' @ c @ ''/'' @ path u"
  from App_Inr [OF app] have link:
    "linkAll env ?us (manifestGen env, buildSourceMap env (manifestGen env)) =
       Inr (manifest r, sourceMap r)"
    by simp
  from cat passUnits_categories have "''name'' \<notin> fst ` set ?us" by fastforce
  from registeredKeys_closed [OF link name this] have ks: "?ks = map ?key ?us"
    by (simp add: passKeys_def)
  have each: "sourceMap r (?key (c, u)) \<noteq> None \<and>
      (\<exists>b. manifest r c = Some (Blocks b) \<and> b (?key (c, u)) \<noteq> None) \<and>
      \<not> endsWith (?key (c, u)) ''/''" if cu: "(c, u) \<in> set ?us" for c u
  proof (intro conjI)
    from cu obtain i where i: "i < length ?us" "?us ! i = (c, u)" by (auto simp: in_set_conv_nth)
    then have ki: "?ks ! i = ?key (c, u)" unfolding ks by simp
    from cu have "?key (c, u) \<in> ?key ` set ?us" by (rule imageI)
    then have "?key (c, u) \<in> set ?ks" unfolding ks by simp
    with linkAll_sourceMap_dom [OF link] have "?key (c, u) \<in> dom (sourceMap r)"
      by (simp add: passKeys_def)
    then show "sourceMap r (?key (c, u)) \<noteq> None" by auto
    from linkAll_manifest_registered [OF link i(1)] i(2) ki
    show "\<exists>b. manifest r c = Some (Blocks b) \<and> b (?key (c, u)) \<noteq> None"
      by (simp add: passKeys_def)
    from cu have "recognized (path u)" unfolding passUnits_def by (rule unitsOf_recognized)
    then have "recognized ((ns @ ''/'' @ c @ ''/'') @ path u)" by (rule recognized_append)
    then show "\<not> endsWith (?key (c, u)) ''/''" using recognized_not_other(3) by simp
  qed
  from ks each show ?thesis by auto
qed

text \<open>The leaf \<open>foo/bar.ts\<close> below \<open>loaders\<close>, in the manifest named \<open>acme\<close>.\<close>

lemma block_key_without_name_entry_example:
  "\<not> isl (App exampleEnv \<lparr>fileSystem = [FileSystemNode ''loaders'' (Directory
       [FileSystemNode ''foo'' (Directory [FileSystemNode ''bar.ts'' (File ''B'')])])]\<rparr>) \<and>
   manifestGen exampleEnv ''name'' = Some (Text ''acme'') \<and>
   ''name'' \<notin> set (map nodeName [FileSystemNode ''loaders'' (Directory
       [FileSystemNode ''foo'' (Directory [FileSystemNode ''bar.ts'' (File ''B'')])])]) \<and>
   passUnits \<lparr>fileSystem = [FileSystemNode ''loaders'' (Directory
       [FileSystemNode ''foo'' (Directory [FileSystemNode ''bar.ts'' (File ''B'')])])]\<rparr> =
     [(''loaders'', \<lparr>path = ''foo/bar.ts'', content = ''B''\<rparr>)] \<and>
   passKeys exampleEnv \<lparr>fileSystem = [FileSystemNode ''loaders'' (Directory
       [FileSystemNode ''foo'' (Directory [FileSystemNode ''bar.ts'' (File ''B'')])])]\<rparr> =
     [''acme/loaders/foo/bar.ts''] \<and>
   sourceMap (projr (App exampleEnv \<lparr>fileSystem = [FileSystemNode ''loaders'' (Directory
       [FileSystemNode ''foo'' (Directory [FileSystemNode ''bar.ts'' (File ''B'')])])]\<rparr>))
     ''acme/loaders/foo/bar.ts'' \<noteq> None"
proof -
  let ?nodes = "[FileSystemNode ''loaders'' (Directory
       [FileSystemNode ''foo'' (Directory [FileSystemNode ''bar.ts'' (File ''B'')])])]"
  have h1: "\<not> isl (App exampleEnv \<lparr>fileSystem = ?nodes\<rparr>)"
    by (simp add: evalApp evalFs)
  have h2: "manifestGen exampleEnv ''name'' = Some (Text ''acme'')"
    by (simp add: exampleEnv_def)
  have h3: "''name'' \<notin> set (map nodeName (fileSystem \<lparr>fileSystem = ?nodes\<rparr>))"
    by simp
  have u: "passUnits \<lparr>fileSystem = ?nodes\<rparr> =
      [(''loaders'', \<lparr>path = ''foo/bar.ts'', content = ''B''\<rparr>)]"
    by (simp add: evalFs)
  from block_key_without_name_entry [OF Inr_projr [OF h1] h2 h3] h1 h2 h3 u show ?thesis
    by simp
qed


subsection \<open>C4\<close>

text \<open>
  C4, as the code has it. For every unit of a successful pass whose block key no later unit
  of the pass uses again, the source-map entry under that key holds the unit's source text
  and, as its path, not the path the walker emitted but the block path derived from it:
  \<open>join(currdir, blockType, path)\<close>.
\<close>

theorem sourceMap_entry_path:
  "App env st = Inr r \<Longrightarrow> i < length (passUnits st)
     \<Longrightarrow> \<forall>j. i < j \<and> j < length (passUnits st) \<longrightarrow> passKeys env st ! j \<noteq> passKeys env st ! i
     \<Longrightarrow> sourceMap r (passKeys env st ! i) =
           Some \<lparr>path = join env [currdir env, fst (passUnits st ! i), path (snd (passUnits st ! i))],
                 content = content (snd (passUnits st ! i))\<rparr>"
proof -
  assume app: "App env st = Inr r" and i: "i < length (passUnits st)"
    and last: "\<forall>j. i < j \<and> j < length (passUnits st) \<longrightarrow> passKeys env st ! j \<noteq> passKeys env st ! i"
  from App_Inr [OF app] have link:
    "linkAll env (passUnits st) (manifestGen env, buildSourceMap env (manifestGen env)) =
       Inr (manifest r, sourceMap r)"
    by simp
  from linkAll_sourceMap_last [OF link i last [unfolded passKeys_def]]
  show ?thesis by (simp add: passKeys_def entryOf_def)
qed

text \<open>One unit; the entry's path is the joined and normalised block path.\<close>

theorem sourceMap_entry_path_witness:
  "\<not> isl (App exampleEnv \<lparr>fileSystem = [FileSystemNode ''loaders'' (Directory
       [FileSystemNode ''foo'' (Directory [FileSystemNode ''bar.ts'' (File ''B'')])])]\<rparr>) \<and>
   passUnits \<lparr>fileSystem = [FileSystemNode ''loaders'' (Directory
       [FileSystemNode ''foo'' (Directory [FileSystemNode ''bar.ts'' (File ''B'')])])]\<rparr> =
     [(''loaders'', \<lparr>path = ''foo/bar.ts'', content = ''B''\<rparr>)] \<and>
   sourceMap (projr (App exampleEnv \<lparr>fileSystem = [FileSystemNode ''loaders'' (Directory
       [FileSystemNode ''foo'' (Directory [FileSystemNode ''bar.ts'' (File ''B'')])])]\<rparr>))
     ''acme/loaders/foo/bar.ts'' =
     Some \<lparr>path = ''file:/app/workspace/loaders/foo/bar.ts'', content = ''B''\<rparr>"
proof -
  let ?st = "\<lparr>fileSystem = [FileSystemNode ''loaders'' (Directory
       [FileSystemNode ''foo'' (Directory [FileSystemNode ''bar.ts'' (File ''B'')])])]\<rparr>"
  have h1: "\<not> isl (App exampleEnv ?st)"
    by (simp add: evalApp evalFs)
  have u: "passUnits ?st = [(''loaders'', \<lparr>path = ''foo/bar.ts'', content = ''B''\<rparr>)]"
    by (simp add: evalFs)
  have k: "passKeys exampleEnv ?st = [''acme/loaders/foo/bar.ts'']"
    by (simp add: evalApp u)
  have h2: "0 < length (passUnits ?st)" by (simp add: u)
  have h3: "\<forall>j. 0 < j \<and> j < length (passUnits ?st) \<longrightarrow>
      passKeys exampleEnv ?st ! j \<noteq> passKeys exampleEnv ?st ! 0"
    by (auto simp: u)
  have p: "join exampleEnv [currdir exampleEnv, ''loaders'', ''foo/bar.ts''] =
      ''file:/app/workspace/loaders/foo/bar.ts''"
    by (simp add: exampleEnv_def posixJoin_def normalize_def)
  from sourceMap_entry_path [OF Inr_projr [OF h1] h2 h3] h1 u show ?thesis
    by (simp add: k p)
qed

text \<open>
  The claim says the entry records the path the walker emitted. For the unit \<open>a.ts\<close> of
  \<open>loaders\<close> the walker emits \<open>a.ts\<close>, and the entry's path is the derived block path.
\<close>

theorem derived_path_counterexample:
  "passUnits \<lparr>fileSystem = [FileSystemNode ''loaders'' (Directory
       [FileSystemNode ''a.ts'' (File ''A'')])]\<rparr> =
     [(''loaders'', \<lparr>path = ''a.ts'', content = ''A''\<rparr>)] \<and>
   (case App exampleEnv \<lparr>fileSystem = [FileSystemNode ''loaders'' (Directory
       [FileSystemNode ''a.ts'' (File ''A'')])]\<rparr> of
      Inl e \<Rightarrow> False
    | Inr r \<Rightarrow> sourceMap r ''acme/loaders/a.ts'' =
                Some \<lparr>path = ''file:/app/workspace/loaders/a.ts'', content = ''A''\<rparr>)"
  by (simp add: evalApp evalFs)

subsection \<open>C5\<close>

text \<open>
  C5, as the code has it. The units of a pass are exactly the leaves of the flattened tree
  that lie below a top-level entry and whose path relative to that entry ends in \<open>.ts\<close> or
  \<open>.tsx\<close>, in traversal order; every other leaf is skipped without an error. After a
  successful pass the source map has the keys it started with and the block keys of the units,
  one per unit, and nothing else; each of those block keys ends in \<open>.ts\<close> or \<open>.tsx\<close>, so
  none ends in \<open>.md\<close> or \<open>.json\<close>. A leaf that is itself a top-level entry is never a
  unit, whatever its name.
\<close>

theorem extension_filter:
  "App env st = Inr r \<Longrightarrow>
     passUnits st =
       filter (\<lambda>(c, u). recognized (path u)) (leafUnitsOf (buildFs (fileSystem st))) \<and>
     length (passKeys env st) = length (passUnits st) \<and>
     dom (sourceMap r) = dom (buildSourceMap env (manifestGen env)) \<union> set (passKeys env st) \<and>
     (\<forall>k \<in> set (passKeys env st).
        recognized k \<and> \<not> endsWith k ''.md'' \<and> \<not> endsWith k ''.json'') \<and>
     (\<forall>c s u. (c, Content s) \<in> set (buildFs (fileSystem st)) \<longrightarrow> (c, u) \<notin> set (passUnits st))"
proof -
  assume app: "App env st = Inr r"
  let ?us = "passUnits st"
  let ?ks = "passKeys env st"
  from App_Inr [OF app] have link:
    "linkAll env ?us (manifestGen env, buildSourceMap env (manifestGen env)) =
       Inr (manifest r, sourceMap r)"
    by simp
  have len: "length ?ks = length ?us"
    unfolding passKeys_def by (rule registeredKeys_length [OF link])
  have rec: "recognized k" if "k \<in> set ?ks" for k
  proof -
    from that obtain i where i: "i < length ?ks" "?ks ! i = k" by (auto simp: in_set_conv_nth)
    with len have iu: "i < length ?us" by simp
    from registeredKeys_shape [OF link iu] i obtain ns where
      k: "k = (ns @ ''/'' @ fst (?us ! i) @ ''/'') @ path (snd (?us ! i))"
      by (auto simp: passKeys_def)
    from iu have "(fst (?us ! i), snd (?us ! i)) \<in> set (unitsOf (buildFs (fileSystem st)))"
      by (simp add: passUnits_def)
    then have "recognized (path (snd (?us ! i)))" by (rule unitsOf_recognized)
    then show ?thesis unfolding k by (rule recognized_append)
  qed
  have top: "(c, u) \<notin> set ?us" if "(c, Content s) \<in> set (buildFs (fileSystem st))" for c s u
    unfolding passUnits_def
  proof (rule unitsOf_top_level_content [OF _ that])
    show "distinct (map fst (buildFs (fileSystem st)))"
      unfolding buildFs_def by (rule distinct_reduceFs) simp
  qed
  show ?thesis
  proof (intro conjI)
    show "?us = filter (\<lambda>(c, u). recognized (path u)) (leafUnitsOf (buildFs (fileSystem st)))"
      by (simp add: passUnits_def unitsOf_filter)
    show "length ?ks = length ?us" by (rule len)
    show "dom (sourceMap r) = dom (buildSourceMap env (manifestGen env)) \<union> set ?ks"
      unfolding passKeys_def by (rule linkAll_sourceMap_dom [OF link])
    show "\<forall>k \<in> set ?ks. recognized k \<and> \<not> endsWith k ''.md'' \<and> \<not> endsWith k ''.json''"
      using rec recognized_not_other by blast
    show "\<forall>c s u. (c, Content s) \<in> set (buildFs (fileSystem st)) \<longrightarrow> (c, u) \<notin> set ?us"
      using top by blast
  qed
qed

text \<open>Two recognized leaves, a \<open>.md\<close> leaf and a nested \<open>.json\<close> leaf.\<close>

theorem extension_filter_witness:
  "\<not> isl (App exampleEnv \<lparr>fileSystem = [FileSystemNode ''loaders'' (Directory
       [FileSystemNode ''a.ts'' (File ''A''), FileSystemNode ''x.md'' (File ''M''),
        FileSystemNode ''sub'' (Directory
          [FileSystemNode ''x.json'' (File ''J''), FileSystemNode ''b.tsx'' (File ''B'')])])]\<rparr>) \<and>
   passUnits \<lparr>fileSystem = [FileSystemNode ''loaders'' (Directory
       [FileSystemNode ''a.ts'' (File ''A''), FileSystemNode ''x.md'' (File ''M''),
        FileSystemNode ''sub'' (Directory
          [FileSystemNode ''x.json'' (File ''J''), FileSystemNode ''b.tsx'' (File ''B'')])])]\<rparr> =
     [(''loaders'', \<lparr>path = ''a.ts'', content = ''A''\<rparr>),
      (''loaders'', \<lparr>path = ''sub/b.tsx'', content = ''B''\<rparr>)] \<and>
   dom (sourceMap (projr (App exampleEnv \<lparr>fileSystem = [FileSystemNode ''loaders'' (Directory
       [FileSystemNode ''a.ts'' (File ''A''), FileSystemNode ''x.md'' (File ''M''),
        FileSystemNode ''sub'' (Directory
          [FileSystemNode ''x.json'' (File ''J''), FileSystemNode ''b.tsx'' (File ''B'')])])]\<rparr>))) =
     {''acme/loaders/a.ts'', ''acme/loaders/sub/b.tsx''}"
proof -
  let ?st = "\<lparr>fileSystem = [FileSystemNode ''loaders'' (Directory
       [FileSystemNode ''a.ts'' (File ''A''), FileSystemNode ''x.md'' (File ''M''),
        FileSystemNode ''sub'' (Directory
          [FileSystemNode ''x.json'' (File ''J''), FileSystemNode ''b.tsx'' (File ''B'')])])]\<rparr>"
  have h: "\<not> isl (App exampleEnv ?st)"
    by (simp add: evalApp evalFs)
  have u: "passUnits ?st =
     [(''loaders'', \<lparr>path = ''a.ts'', content = ''A''\<rparr>),
      (''loaders'', \<lparr>path = ''sub/b.tsx'', content = ''B''\<rparr>)]"
    by (simp add: evalFs)
  have k: "passKeys exampleEnv ?st = [''acme/loaders/a.ts'', ''acme/loaders/sub/b.tsx'']"
    by (simp add: evalApp u)
  have b: "buildSourceMap exampleEnv (manifestGen exampleEnv) = Map.empty"
    by (simp add: exampleEnv_def)
  from extension_filter [OF Inr_projr [OF h]] h u show ?thesis
    unfolding k b by auto
qed

text \<open>
  The claim says a leaf with a \<open>.ts\<close> suffix that compiles always appears in the source
  map. A top-level leaf named \<open>x.ts\<close> is walked with the empty path, is not compiled, and
  the pass returns the source map it started with.
\<close>

theorem top_level_leaf_counterexample:
  "importFromString exampleEnv ''export default 1'' = Inr ''export default 1'' \<and>
   App exampleEnv \<lparr>fileSystem = [FileSystemNode ''x.ts'' (File ''export default 1'')]\<rparr> =
     Inr \<lparr>manifest = manifestGen exampleEnv,
          state = [(''x.ts'', Content ''export default 1'')],
          sourceMap = Map.empty\<rparr>"
  by (simp add: App_def exampleEnv_def evalFs)

subsection \<open>C6\<close>




subsection \<open>C7\<close>

text \<open>
  C7, as the code has it. For a tree in which, in every directory and at the top level, the
  names are pairwise distinct and none is an array index (the decimal form of an integer
  from 0 to 2^32 - 2), flattening keeps the nodes in their stored order and the walker emits
  the units in that order.
\<close>

theorem walk_in_stored_order:
  "plainNodes nodes \<Longrightarrow>
     buildFs nodes = map flattenNode nodes \<and>
     walkEntries (buildFs nodes) root = walkNodes nodes root \<and>
     passUnits \<lparr>fileSystem = nodes\<rparr> = storedUnits nodes"
  by (simp add: buildFs_plain walk_plain unitsOf_plain passUnits_def)

text \<open>The children \<open>[a.ts, b.ts]\<close> and \<open>[b.ts, a.ts]\<close> are each walked as stored.\<close>

theorem walk_in_stored_order_witness:
  "plainNodes [FileSystemNode ''loaders'' (Directory
       [FileSystemNode ''a.ts'' (File ''A''), FileSystemNode ''b.ts'' (File ''B'')])] \<and>
   passUnits \<lparr>fileSystem = [FileSystemNode ''loaders'' (Directory
       [FileSystemNode ''a.ts'' (File ''A''), FileSystemNode ''b.ts'' (File ''B'')])]\<rparr> =
     [(''loaders'', \<lparr>path = ''a.ts'', content = ''A''\<rparr>),
      (''loaders'', \<lparr>path = ''b.ts'', content = ''B''\<rparr>)] \<and>
   plainNodes [FileSystemNode ''loaders'' (Directory
       [FileSystemNode ''b.ts'' (File ''B''), FileSystemNode ''a.ts'' (File ''A'')])] \<and>
   passUnits \<lparr>fileSystem = [FileSystemNode ''loaders'' (Directory
       [FileSystemNode ''b.ts'' (File ''B''), FileSystemNode ''a.ts'' (File ''A'')])]\<rparr> =
     [(''loaders'', \<lparr>path = ''b.ts'', content = ''B''\<rparr>),
      (''loaders'', \<lparr>path = ''a.ts'', content = ''A''\<rparr>)]"
proof -
  have h1: "plainNodes [FileSystemNode ''loaders'' (Directory
       [FileSystemNode ''a.ts'' (File ''A''), FileSystemNode ''b.ts'' (File ''B'')])]"
    by (simp add: arrayIndex_def digitValue_def)
  have h2: "plainNodes [FileSystemNode ''loaders'' (Directory
       [FileSystemNode ''b.ts'' (File ''B''), FileSystemNode ''a.ts'' (File ''A'')])]"
    by (simp add: arrayIndex_def digitValue_def)
  from walk_in_stored_order [OF h1, of "''''"] walk_in_stored_order [OF h2, of "''''"] h1 h2
  show ?thesis by (simp add: recognized_def endsWith_def suffix_to_prefix)
qed

text \<open>
  The claim holds for any directory. An object enumerates its array-index keys first, in
  ascending numeric order: the children \<open>[2, 1]\<close> are walked as \<open>[1, 2]\<close>.
\<close>

theorem index_names_reordered_counterexample:
  "passUnits \<lparr>fileSystem = [FileSystemNode ''loaders'' (Directory
       [FileSystemNode ''2'' (Directory [FileSystemNode ''x.ts'' (File ''X'')]),
        FileSystemNode ''1'' (Directory [FileSystemNode ''y.ts'' (File ''Y'')])])]\<rparr> =
     [(''loaders'', \<lparr>path = ''1/y.ts'', content = ''Y''\<rparr>),
      (''loaders'', \<lparr>path = ''2/x.ts'', content = ''X''\<rparr>)] \<and>
   storedUnits [FileSystemNode ''loaders'' (Directory
       [FileSystemNode ''2'' (Directory [FileSystemNode ''x.ts'' (File ''X'')]),
        FileSystemNode ''1'' (Directory [FileSystemNode ''y.ts'' (File ''Y'')])])] =
     [(''loaders'', \<lparr>path = ''2/x.ts'', content = ''X''\<rparr>),
      (''loaders'', \<lparr>path = ''1/y.ts'', content = ''Y''\<rparr>)]"
  by (simp add: evalFs recognized_def)

subsection \<open>C8\<close>

text \<open>
  C8. A linking step returns a new manifest that equals the one passed in on every field
  other than the unit's block type; that field is a copy of what it held (\<open>spread\<close>; for a
  field that held the entries \<open>b\<close>, \<open>b\<close> itself) extended with the binding of the block key
  to the compiled module. The new source map equals the one passed in except under the block
  key. Both results are new values: the step writes into neither argument.
\<close>

theorem compile_frame:
  "compile env blockType unit m sm = Inr (m', sm') \<Longrightarrow>
     (\<forall>c. c \<noteq> blockType \<longrightarrow> m' c = m c) \<and>
     (\<exists>tsModule. importFromString env (content unit) = Inr tsModule \<and>
        m' blockType =
          Some (Blocks ((spread (m blockType))
                          (blockKeyOf m blockType unit \<mapsto> Module tsModule))) \<and>
        (\<forall>b. m blockType = Some (Blocks b) \<longrightarrow>
           m' blockType =
             Some (Blocks (b(blockKeyOf m blockType unit \<mapsto> Module tsModule))))) \<and>
     (\<forall>k. k \<noteq> blockKeyOf m blockType unit \<longrightarrow> sm' k = sm k) \<and>
     sm' (blockKeyOf m blockType unit) = Some (entryOf env (blockType, unit))"
  by (auto simp: compile_Inr spread_def)

text \<open>Linking \<open>a.ts\<close> into \<open>loaders\<close> leaves the field \<open>name\<close> of the manifest as it was.\<close>

theorem compile_frame_witness:
  "compile exampleEnv ''loaders'' \<lparr>path = ''a.ts'', content = ''A''\<rparr>
      (manifestGen exampleEnv) Map.empty =
     Inr ((manifestGen exampleEnv)(''loaders'' \<mapsto> Blocks [''acme/loaders/a.ts'' \<mapsto> Module ''A'']),
          [''acme/loaders/a.ts'' \<mapsto>
             \<lparr>path = ''file:/app/workspace/loaders/a.ts'', content = ''A''\<rparr>]) \<and>
   ((manifestGen exampleEnv)(''loaders'' \<mapsto> Blocks [''acme/loaders/a.ts'' \<mapsto> Module ''A'']))
      ''name'' = manifestGen exampleEnv ''name''"
proof -
  have h: "compile exampleEnv ''loaders'' \<lparr>path = ''a.ts'', content = ''A''\<rparr>
      (manifestGen exampleEnv) Map.empty =
     Inr ((manifestGen exampleEnv)(''loaders'' \<mapsto> Blocks [''acme/loaders/a.ts'' \<mapsto> Module ''A'']),
          [''acme/loaders/a.ts'' \<mapsto>
             \<lparr>path = ''file:/app/workspace/loaders/a.ts'', content = ''A''\<rparr>])"
    by (simp add: compile_def exampleEnv_def blockKeyOf_def toString_def spread_def
        posixJoin_def normalize_def Let_def)
  from compile_frame [OF h] h show ?thesis by simp
qed

subsection \<open>C9\<close>

text \<open>
  C9, as the code has it. For every unit of a successful pass whose block key no later unit
  of the pass uses again, the content stored in the source map under that key is the
  unit's content, unchanged.
\<close>

theorem sourceMap_content_roundtrip:
  "App env st = Inr r \<Longrightarrow> i < length (passUnits st)
     \<Longrightarrow> \<forall>j. i < j \<and> j < length (passUnits st) \<longrightarrow> passKeys env st ! j \<noteq> passKeys env st ! i
     \<Longrightarrow> map_option content (sourceMap r (passKeys env st ! i)) =
           Some (content (snd (passUnits st ! i)))"
proof -
  assume app: "App env st = Inr r" and i: "i < length (passUnits st)"
    and last: "\<forall>j. i < j \<and> j < length (passUnits st) \<longrightarrow> passKeys env st ! j \<noteq> passKeys env st ! i"
  from App_Inr [OF app] have link:
    "linkAll env (passUnits st) (manifestGen env, buildSourceMap env (manifestGen env)) =
       Inr (manifest r, sourceMap r)"
    by simp
  from linkAll_sourceMap_last [OF link i last [unfolded passKeys_def]]
  show ?thesis by (simp add: passKeys_def entryOf_def)
qed

text \<open>The later of two units with the same key keeps its content.\<close>

theorem sourceMap_content_roundtrip_witness:
  "\<not> isl (App exampleEnv \<lparr>fileSystem = [FileSystemNode ''loaders'' (Directory
       [FileSystemNode '''' (Directory [FileSystemNode ''a.ts'' (File ''X'')]),
        FileSystemNode ''a.ts'' (File ''Y'')])]\<rparr>) \<and>
   passUnits \<lparr>fileSystem = [FileSystemNode ''loaders'' (Directory
       [FileSystemNode '''' (Directory [FileSystemNode ''a.ts'' (File ''X'')]),
        FileSystemNode ''a.ts'' (File ''Y'')])]\<rparr> =
     [(''loaders'', \<lparr>path = ''a.ts'', content = ''X''\<rparr>),
      (''loaders'', \<lparr>path = ''a.ts'', content = ''Y''\<rparr>)] \<and>
   passKeys exampleEnv \<lparr>fileSystem = [FileSystemNode ''loaders'' (Directory
       [FileSystemNode '''' (Directory [FileSystemNode ''a.ts'' (File ''X'')]),
        FileSystemNode ''a.ts'' (File ''Y'')])]\<rparr> =
     [''acme/loaders/a.ts'', ''acme/loaders/a.ts''] \<and>
   map_option content (sourceMap (projr (App exampleEnv \<lparr>fileSystem = [FileSystemNode ''loaders''
       (Directory [FileSystemNode '''' (Directory [FileSystemNode ''a.ts'' (File ''X'')]),
        FileSystemNode ''a.ts'' (File ''Y'')])]\<rparr>)) ''acme/loaders/a.ts'') = Some ''Y''"
proof -
  let ?st = "\<lparr>fileSystem = [FileSystemNode ''loaders'' (Directory
       [FileSystemNode '''' (Directory [FileSystemNode ''a.ts'' (File ''X'')]),
        FileSystemNode ''a.ts'' (File ''Y'')])]\<rparr>"
  have h1: "\<not> isl (App exampleEnv ?st)"
    by (simp add: evalApp evalFs)
  have u: "passUnits ?st =
     [(''loaders'', \<lparr>path = ''a.ts'', content = ''X''\<rparr>),
      (''loaders'', \<lparr>path = ''a.ts'', content = ''Y''\<rparr>)]"
    by (simp add: evalFs)
  have k: "passKeys exampleEnv ?st = [''acme/loaders/a.ts'', ''acme/loaders/a.ts'']"
    by (simp add: evalApp u)
  have h2: "1 < length (passUnits ?st)" by (simp add: u)
  have h3: "\<forall>j. 1 < j \<and> j < length (passUnits ?st) \<longrightarrow>
      passKeys exampleEnv ?st ! j \<noteq> passKeys exampleEnv ?st ! 1"
    by (auto simp: u)
  from sourceMap_content_roundtrip [OF Inr_projr [OF h1] h2 h3] h1 u k show ?thesis
    by simp
qed

text \<open>
  The claim speaks of every retained unit. The first of two units with the same block key is
  compiled and linked, and after the pass its key holds the content of the second.
\<close>

theorem overwritten_content_counterexample:
  "passUnits \<lparr>fileSystem = [FileSystemNode ''loaders'' (Directory
       [FileSystemNode '''' (Directory [FileSystemNode ''a.ts'' (File ''X'')]),
        FileSystemNode ''a.ts'' (File ''Y'')])]\<rparr> ! 0 =
     (''loaders'', \<lparr>path = ''a.ts'', content = ''X''\<rparr>) \<and>
   passKeys exampleEnv \<lparr>fileSystem = [FileSystemNode ''loaders'' (Directory
       [FileSystemNode '''' (Directory [FileSystemNode ''a.ts'' (File ''X'')]),
        FileSystemNode ''a.ts'' (File ''Y'')])]\<rparr> ! 0 = ''acme/loaders/a.ts'' \<and>
   (case App exampleEnv \<lparr>fileSystem = [FileSystemNode ''loaders'' (Directory
       [FileSystemNode '''' (Directory [FileSystemNode ''a.ts'' (File ''X'')]),
        FileSystemNode ''a.ts'' (File ''Y'')])]\<rparr> of
      Inl e \<Rightarrow> False
    | Inr r \<Rightarrow> map_option content (sourceMap r ''acme/loaders/a.ts'') = Some ''Y'')"
  by (simp add: evalApp evalFs)

subsection \<open>C10\<close>

text \<open>
  C10. When a node list (a directory's entries or the top-level sequence) holds two nodes
  of the same name \<open>n\<close>, the flattened tree does not depend on the value \<open>v1\<close> of the earlier
  one: it is the tree obtained with any other value \<open>v1'\<close> in its place, and so is the result
  of the whole pass, whether or not the sources below \<open>v1\<close> compile. The name is bound once,
  and when no later node repeats it, to the flattened value of the later node.
\<close>

theorem buildFs_duplicate_name:
  "buildFs (xs @ FileSystemNode n v1 # ys @ FileSystemNode n v2 # zs) =
     buildFs (xs @ FileSystemNode n v1' # ys @ FileSystemNode n v2 # zs) \<and>
   App env \<lparr>fileSystem = xs @ FileSystemNode n v1 # ys @ FileSystemNode n v2 # zs\<rparr> =
     App env \<lparr>fileSystem = xs @ FileSystemNode n v1' # ys @ FileSystemNode n v2 # zs\<rparr> \<and>
   distinct (map fst (buildFs (xs @ FileSystemNode n v1 # ys @ FileSystemNode n v2 # zs))) \<and>
   (n \<notin> set (map nodeName zs) \<longrightarrow>
      map_of (buildFs (xs @ FileSystemNode n v1 # ys @ FileSystemNode n v2 # zs)) n =
        Some (flattenValue v2))"
proof (intro conjI impI)
  show eq: "buildFs (xs @ FileSystemNode n v1 # ys @ FileSystemNode n v2 # zs) =
     buildFs (xs @ FileSystemNode n v1' # ys @ FileSystemNode n v2 # zs)"
    by (rule buildFs_shadowed)
  show "App env \<lparr>fileSystem = xs @ FileSystemNode n v1 # ys @ FileSystemNode n v2 # zs\<rparr> =
     App env \<lparr>fileSystem = xs @ FileSystemNode n v1' # ys @ FileSystemNode n v2 # zs\<rparr>"
    by (simp add: App_def eq)
  show "distinct (map fst (buildFs (xs @ FileSystemNode n v1 # ys @ FileSystemNode n v2 # zs)))"
    unfolding buildFs_def by (rule distinct_reduceFs) simp
next
  assume "n \<notin> set (map nodeName zs)"
  from buildFs_last_binding [OF this, of "xs @ FileSystemNode n v1 # ys" v2]
  show "map_of (buildFs (xs @ FileSystemNode n v1 # ys @ FileSystemNode n v2 # zs)) n =
        Some (flattenValue v2)"
    by simp
qed

text \<open>
  The earlier \<open>loaders\<close> holds a source that does not compile; the pass is that of the
  tree without it.
\<close>

theorem buildFs_duplicate_name_witness:
  "buildFs ([] @ FileSystemNode ''loaders'' (Directory [FileSystemNode ''a.ts'' (File ''syntax error'')])
        # [FileSystemNode ''actions'' (Directory [])]
        @ FileSystemNode ''loaders'' (Directory [FileSystemNode ''b.ts'' (File ''B'')]) # []) =
     [(''loaders'', Object [(''b.ts'', Content ''B'')]), (''actions'', Object [])] \<and>
   App exampleEnv \<lparr>fileSystem =
        [] @ FileSystemNode ''loaders'' (Directory [FileSystemNode ''a.ts'' (File ''syntax error'')])
        # [FileSystemNode ''actions'' (Directory [])]
        @ FileSystemNode ''loaders'' (Directory [FileSystemNode ''b.ts'' (File ''B'')]) # []\<rparr> =
     App exampleEnv \<lparr>fileSystem =
        [] @ FileSystemNode ''loaders'' (Directory [])
        # [FileSystemNode ''actions'' (Directory [])]
        @ FileSystemNode ''loaders'' (Directory [FileSystemNode ''b.ts'' (File ''B'')]) # []\<rparr> \<and>
   map_of (buildFs ([] @ FileSystemNode ''loaders'' (Directory [FileSystemNode ''a.ts'' (File ''syntax error'')])
        # [FileSystemNode ''actions'' (Directory [])]
        @ FileSystemNode ''loaders'' (Directory [FileSystemNode ''b.ts'' (File ''B'')]) # [])) ''loaders'' =
     Some (flattenValue (Directory [FileSystemNode ''b.ts'' (File ''B'')]))"
proof -
  have h: "''loaders'' \<notin> set (map nodeName [])" by simp
  have b: "buildFs ([] @ FileSystemNode ''loaders'' (Directory [FileSystemNode ''a.ts'' (File ''syntax error'')])
        # [FileSystemNode ''actions'' (Directory [])]
        @ FileSystemNode ''loaders'' (Directory [FileSystemNode ''b.ts'' (File ''B'')]) # []) =
     [(''loaders'', Object [(''b.ts'', Content ''B'')]), (''actions'', Object [])]"
    by (simp add: evalFs)
  from buildFs_duplicate_name [of "[]" "''loaders''"
      "Directory [FileSystemNode ''a.ts'' (File ''syntax error'')]"
      "[FileSystemNode ''actions'' (Directory [])]"
      "Directory [FileSystemNode ''b.ts'' (File ''B'')]" "[]" "Directory []" exampleEnv] h b
  show ?thesis by (simp add: evalFs)
qed

end
